theory Spec2Isabelle
  imports Main
begin

section \<open>The replay buffer of \<^verbatim>\<open>labs/04/wrappers.py\<close>\<close>

text \<open>
  The class \<^verbatim>\<open>ReplayBuffer\<close> keeps three fields: \<^verbatim>\<open>_max_length\<close> (an integer or
  \<^verbatim>\<open>None\<close>), \<^verbatim>\<open>_data\<close> (a Python list) and \<^verbatim>\<open>_offset\<close> (an integer). Python integers
  are unbounded, so they are \<^typ>\<open>int\<close> here. Every method that mutates the object takes
  the state and returns the new one; an exception is a value that carries the state the
  object is left in when it is raised.
\<close>

subsection \<open>Python primitives\<close>

datatype error = IndexError | ZeroDivisionError | AssertionError | ValueError

text \<open>\<^verbatim>\<open>xs[i]\<close>: a negative index counts from the end, an index out of range raises.\<close>

definition py_getitem :: "'a list \<Rightarrow> int \<Rightarrow> error + 'a" where
  "py_getitem xs i =
     (let n = int (length xs); j = (if i < 0 then i + n else i)
      in if 0 \<le> j \<and> j < n then Inr (xs ! nat j) else Inl IndexError)"

text \<open>\<^verbatim>\<open>xs[i] = v\<close>, with the same index convention.\<close>

definition py_setitem :: "'a list \<Rightarrow> int \<Rightarrow> 'a \<Rightarrow> error + 'a list" where
  "py_setitem xs i v =
     (let n = int (length xs); j = (if i < 0 then i + n else i)
      in if 0 \<le> j \<and> j < n then Inr (xs[nat j := v]) else Inl IndexError)"

text \<open>
  \<^verbatim>\<open>a % b\<close>: the result has the sign of the divisor, as \<^const>\<open>modulo\<close> on \<^typ>\<open>int\<close>
  has; a zero divisor raises.
\<close>

definition py_mod :: "int \<Rightarrow> int \<Rightarrow> error + int" where
  "py_mod a b = (if b = 0 then Inl ZeroDivisionError else Inr (a mod b))"

text \<open>\<^verbatim>\<open>[xs[i] for i in idxs]\<close>: the comprehension stops at the first index that raises.\<close>

fun py_getitems :: "'a list \<Rightarrow> int list \<Rightarrow> error + 'a list" where
  "py_getitems xs [] = Inr []"
| "py_getitems xs (i # idxs) =
     (case py_getitem xs i of
        Inl e \<Rightarrow> Inl e
      | Inr x \<Rightarrow> (case py_getitems xs idxs of Inl e \<Rightarrow> Inl e | Inr ys \<Rightarrow> Inr (x # ys)))"

subsection \<open>The buffer\<close>

record 'a ReplayBuffer =
  max_length :: "int option"
  data :: "'a list"
  offset :: int

text \<open>
  The result of a mutating method: \<open>Inr\<close> the state after a normal return, \<open>Inl\<close> the
  exception raised together with the state at that moment.
\<close>

type_synonym 'a outcome = "(error \<times> 'a ReplayBuffer) + 'a ReplayBuffer"

definition init :: "int option \<Rightarrow> 'a ReplayBuffer" where
  "init cap = \<lparr>max_length = cap, data = [], offset = 0\<rparr>"

definition len :: "'a ReplayBuffer \<Rightarrow> int" where
  "len b = int (length (data b))"

definition append_item :: "'a ReplayBuffer \<Rightarrow> 'a \<Rightarrow> 'a outcome" where
  "append_item b item =
     (case max_length b of
        None \<Rightarrow> Inr (b\<lparr>data := data b @ [item]\<rparr>)
      | Some m \<Rightarrow>
          if int (length (data b)) \<ge> m then
            (case py_setitem (data b) (offset b) item of
               Inl e \<Rightarrow> Inl (e, b)
             | Inr d \<Rightarrow>
                 (case py_mod (offset b + 1) m of
                    Inl e \<Rightarrow> Inl (e, b\<lparr>data := d\<rparr>)
                  | Inr off \<Rightarrow> Inr (b\<lparr>data := d, offset := off\<rparr>)))
          else Inr (b\<lparr>data := data b @ [item]\<rparr>))"

text \<open>
  The loop of \<^verbatim>\<open>extend\<close> for a bounded buffer. Its body repeats the two branches of
  \<^verbatim>\<open>append\<close> in the source; \<open>m\<close> is \<^verbatim>\<open>self._max_length\<close>, which the loop never assigns.
\<close>

fun extend_loop :: "int \<Rightarrow> 'a ReplayBuffer \<Rightarrow> 'a list \<Rightarrow> 'a outcome" where
  "extend_loop m b [] = Inr b"
| "extend_loop m b (item # items) =
     (if int (length (data b)) \<ge> m then
        (case py_setitem (data b) (offset b) item of
           Inl e \<Rightarrow> Inl (e, b)
         | Inr d \<Rightarrow>
             (case py_mod (offset b + 1) m of
                Inl e \<Rightarrow> Inl (e, b\<lparr>data := d\<rparr>)
              | Inr off \<Rightarrow> extend_loop m (b\<lparr>data := d, offset := off\<rparr>) items))
      else extend_loop m (b\<lparr>data := data b @ [item]\<rparr>) items)"

definition extend_items :: "'a ReplayBuffer \<Rightarrow> 'a list \<Rightarrow> 'a outcome" where
  "extend_items b items =
     (case max_length b of
        None \<Rightarrow> Inr (b\<lparr>data := data b @ items\<rparr>)
      | Some m \<Rightarrow> extend_loop m b items)"

text \<open>\<^verbatim>\<open>__getitem__\<close>: the assertion first, then the read at the shifted position.\<close>

definition getitem :: "'a ReplayBuffer \<Rightarrow> int \<Rightarrow> error + 'a" where
  "getitem b index =
     (let n = int (length (data b))
      in if - n \<le> index \<and> index < n then
           (case py_mod (offset b + index) n of
              Inl e \<Rightarrow> Inl e
            | Inr j \<Rightarrow> py_getitem (data b) j)
         else Inl AssertionError)"

text \<open>
  Line 236 alone, the body of \<^verbatim>\<open>__getitem__\<close> after its assertion: what is left of the
  method when Python strips \<^verbatim>\<open>assert\<close> statements (\<^verbatim>\<open>python -O\<close>).
\<close>

definition getitem_unchecked :: "'a ReplayBuffer \<Rightarrow> int \<Rightarrow> error + 'a" where
  "getitem_unchecked b index =
     (case py_mod (offset b + index) (int (length (data b))) of
        Inl e \<Rightarrow> Inl e
      | Inr j \<Rightarrow> py_getitem (data b) j)"

text \<open>
  The generator handed to \<^verbatim>\<open>sample\<close> is not code of this repository (by default it is
  \<^verbatim>\<open>numpy.random\<close>), so it is a parameter: \<open>randint g n k\<close> stands for
  \<^verbatim>\<open>generator.randint(n, size=k)\<close> and \<open>choice g n k\<close> for
  \<^verbatim>\<open>generator.choice(n, size=k, replace=False)\<close>, each returning the indices drawn or
  the exception raised.
\<close>

record generator =
  randint :: "int \<Rightarrow> int \<Rightarrow> error + int list"
  choice :: "int \<Rightarrow> int \<Rightarrow> error + int list"

definition sample :: "'a ReplayBuffer \<Rightarrow> int \<Rightarrow> generator \<Rightarrow> bool \<Rightarrow> error + 'a list" where
  "sample b sz g replace =
     (if replace then
        (case randint g (int (length (data b))) sz of
           Inl e \<Rightarrow> Inl e
         | Inr idxs \<Rightarrow> py_getitems (data b) idxs)
      else
        (case choice g (int (length (data b))) sz of
           Inl e \<Rightarrow> Inl e
         | Inr idxs \<Rightarrow> py_getitems (data b) idxs))"

subsection \<open>Sequences of calls\<close>

text \<open>Calling \<^verbatim>\<open>append\<close> once for each element of a list, in order, up to the first exception.\<close>

fun appends :: "'a ReplayBuffer \<Rightarrow> 'a list \<Rightarrow> 'a outcome" where
  "appends b [] = Inr b"
| "appends b (x # xs) =
     (case append_item b x of Inl r \<Rightarrow> Inl r | Inr b' \<Rightarrow> appends b' xs)"

text \<open>
  A client's calls of the two mutating methods, and the state they leave: after a call
  that raised, the object is in the state the exception left it in.
\<close>

datatype 'a call = Append 'a | Extend "'a list"

fun state_of :: "'a outcome \<Rightarrow> 'a ReplayBuffer" where
  "state_of (Inl (e, b)) = b"
| "state_of (Inr b) = b"

fun perform :: "'a ReplayBuffer \<Rightarrow> 'a call \<Rightarrow> 'a outcome" where
  "perform b (Append x) = append_item b x"
| "perform b (Extend xs) = extend_items b xs"

fun run :: "'a ReplayBuffer \<Rightarrow> 'a call list \<Rightarrow> 'a ReplayBuffer" where
  "run b [] = b"
| "run b (c # cs) = run (state_of (perform b c)) cs"

fun items_of :: "'a call list \<Rightarrow> 'a list" where
  "items_of [] = []"
| "items_of (Append x # cs) = x # items_of cs"
| "items_of (Extend xs # cs) = xs @ items_of cs"

text \<open>The logical contents, read back with \<^verbatim>\<open>buffer[0]\<close>, ..., \<^verbatim>\<open>buffer[len(buffer) - 1]\<close>.\<close>

definition contents :: "'a ReplayBuffer \<Rightarrow> (error + 'a) list" where
  "contents b = map (\<lambda>i. getitem b (int i)) [0 ..< length (data b)]"

subsection \<open>The state a history of appended items leads to\<close>

text \<open>
  After \<open>n\<close> items went into a buffer of capacity \<open>C\<close>, the write position is 0 until
  the buffer is full, and then the number of overwrites modulo \<open>C\<close>.
\<close>

definition cursor :: "int \<Rightarrow> nat \<Rightarrow> nat" where
  "cursor C n = (if n < nat C then 0 else n mod nat C)"

text \<open>
  \<open>fifo C h b\<close>: \<open>b\<close> is the state of a buffer of capacity \<open>C\<close> into which the items \<open>h\<close>
  went, oldest first. The list starting at the write position and wrapping around holds
  the last \<open>C\<close> of them, in order.
\<close>

definition fifo :: "int \<Rightarrow> 'a list \<Rightarrow> 'a ReplayBuffer \<Rightarrow> bool" where
  "fifo C h b \<longleftrightarrow>
     max_length b = Some C \<and>
     length (data b) = min (length h) (nat C) \<and>
     offset b = int (cursor C (length h)) \<and>
     rotate (cursor C (length h)) (data b) = drop (length h - nat C) h"

subsection \<open>The generator's side of \<^verbatim>\<open>sample\<close>\<close>

text \<open>
  What \<^verbatim>\<open>numpy.random\<close> documents for the two calls that \<^verbatim>\<open>sample\<close> makes, each stated
  for one call. \<open>randint_contract g n k\<close>: \<^verbatim>\<open>randint(n, size=k)\<close> returns \<open>k\<close> integers of
  \<open>[0, n)\<close>. \<open>choice_contract g n k\<close>: \<^verbatim>\<open>choice(n, size=k, replace=False)\<close> returns \<open>k\<close>
  pairwise different integers of \<open>[0, n)\<close>, and raises \<^verbatim>\<open>ValueError\<close> when \<open>k > n\<close>. The
  method \<^verbatim>\<open>sample\<close> has no check of its own; these are the hypotheses under which its
  results are stated.
\<close>

definition randint_contract :: "generator \<Rightarrow> int \<Rightarrow> int \<Rightarrow> bool" where
  "randint_contract g n k =
     (case randint g n k of
        Inl e \<Rightarrow> False
      | Inr idxs \<Rightarrow> int (length idxs) = k \<and> list_all (\<lambda>i. 0 \<le> i \<and> i < n) idxs)"

definition choice_contract :: "generator \<Rightarrow> int \<Rightarrow> int \<Rightarrow> bool" where
  "choice_contract g n k =
     (if n < k then choice g n k = Inl ValueError
      else (case choice g n k of
              Inl e \<Rightarrow> False
            | Inr idxs \<Rightarrow>
                int (length idxs) = k \<and> distinct idxs \<and> list_all (\<lambda>i. 0 \<le> i \<and> i < n) idxs))"

section \<open>Auxiliary facts\<close>

subsection \<open>Lists and indices\<close>

lemma rotate_update:
  assumes "k < length d"
  shows "rotate (Suc k mod length d) (d[k := x]) = tl (rotate k d) @ [x]"
proof (cases "Suc k = length d")
  case True
  have "d[k := x] = take k d @ [x]"
    using assms True by (simp add: upd_conv_take_nth_drop)
  moreover have "rotate k d = (d ! k) # take k d"
    using assms True by (simp add: rotate_drop_take Cons_nth_drop_Suc [symmetric])
  ultimately show ?thesis using True by simp
next
  case False
  with assms have lt: "Suc k < length d" by simp
  have "rotate (Suc k) (d[k := x]) = drop (Suc k) d @ take k d @ [x]"
    using lt by (simp add: rotate_drop_take take_Suc_conv_app_nth)
  moreover have "rotate k d = (d ! k) # drop (Suc k) d @ take k d"
    using assms by (simp add: rotate_drop_take Cons_nth_drop_Suc [symmetric])
  ultimately show ?thesis using lt by simp
qed

lemma py_setitem_nonneg:
  "k < length xs \<Longrightarrow> py_setitem xs (int k) v = Inr (xs[k := v])"
  by (simp add: py_setitem_def)

lemma py_getitem_nonneg:
  "0 \<le> j \<Longrightarrow> j < int (length xs) \<Longrightarrow> py_getitem xs j = Inr (xs ! nat j)"
  by (simp add: py_getitem_def)

subsection \<open>\<^verbatim>\<open>extend\<close> against repeated \<^verbatim>\<open>append\<close>\<close>

lemma extend_loop_appends:
  "max_length b = Some m \<Longrightarrow> extend_loop m b items = appends b items"
proof (induction items arbitrary: b)
  case Nil
  then show ?case by simp
next
  case (Cons x xs)
  then show ?case
    by (simp add: append_item_def split: sum.splits)
qed

lemma appends_unbounded:
  "max_length b = None \<Longrightarrow> appends b items = Inr (b\<lparr>data := data b @ items\<rparr>)"
  by (induction items arbitrary: b) (simp_all add: append_item_def)

lemma extend_items_appends: "extend_items b items = appends b items"
  by (cases "max_length b") (simp_all add: extend_items_def extend_loop_appends appends_unbounded)

subsection \<open>The invariant of a bounded buffer\<close>

lemma fifo_init: "fifo C [] (init (Some C))"
  by (simp add: fifo_def init_def cursor_def)

lemma cursor_Suc:
  assumes "1 \<le> C"
  shows "cursor C (Suc n) = (if n < nat C then 0 else Suc (cursor C n) mod nat C)"
proof (cases "Suc n < nat C")
  case True
  then show ?thesis by (simp add: cursor_def)
next
  case False
  show ?thesis
  proof (cases "n < nat C")
    case True
    with False have "Suc n = nat C" by simp
    then show ?thesis using True by (simp add: cursor_def)
  next
    case False
    then show ?thesis by (simp add: cursor_def mod_Suc_eq)
  qed
qed

lemma cursor_less: "1 \<le> C \<Longrightarrow> cursor C n < nat C"
  by (simp add: cursor_def)

lemma fifo_append_item:
  assumes C: "1 \<le> C" and inv: "fifo C h b"
  shows "\<exists>b'. append_item b x = Inr b' \<and> fifo C (h @ [x]) b'"
proof -
  let ?n = "nat C"
  let ?k = "cursor C (length h)"
  from inv have m: "max_length b = Some C" and l: "length (data b) = min (length h) ?n"
    and o: "offset b = int ?k" and r: "rotate ?k (data b) = drop (length h - ?n) h"
    by (simp_all add: fifo_def)
  show ?thesis
  proof (cases "length h < ?n")
    case True
    then have k0: "?k = 0" by (simp add: cursor_def)
    from r k0 True have d: "data b = h" by simp
    from True d have "\<not> C \<le> int (length (data b))" by simp
    then have "append_item b x = Inr (b\<lparr>data := data b @ [x]\<rparr>)"
      by (simp add: append_item_def m)
    moreover have "fifo C (h @ [x]) (b\<lparr>data := data b @ [x]\<rparr>)"
      using True by (simp add: fifo_def m d o cursor_Suc [OF C] k0)
    ultimately show ?thesis by blast
  next
    case False
    from C have n: "0 < ?n" by simp
    from False l have l': "length (data b) = ?n" by simp
    have k: "?k < length (data b)" using cursor_less [OF C] l' by simp
    have full: "C \<le> int (length (data b))" using l' C by simp
    have st: "py_setitem (data b) (offset b) x = Inr ((data b)[?k := x])"
      using py_setitem_nonneg [OF k] by (simp add: o)
    have adv: "(int ?k + 1) mod C = int (Suc ?k mod ?n)"
      using C by (simp add: zmod_int add.commute)
    have md: "py_mod (offset b + 1) C = Inr (int (Suc ?k mod ?n))"
      using C by (simp add: py_mod_def o adv)
    let ?b' = "b\<lparr>data := (data b)[?k := x], offset := int (Suc ?k mod ?n)\<rparr>"
    have "append_item b x = Inr ?b'"
      using full by (simp add: append_item_def m st md)
    moreover have "fifo C (h @ [x]) ?b'"
    proof -
      have "rotate (Suc ?k mod ?n) ((data b)[?k := x]) = tl (rotate ?k (data b)) @ [x]"
        using rotate_update [OF k, of x] l' by simp
      also have "\<dots> = drop (Suc (length h) - ?n) (h @ [x])"
        using False n by (simp add: r Suc_diff_le drop_Suc tl_drop)
      finally show ?thesis
        using False l' by (simp add: fifo_def m cursor_Suc [OF C])
    qed
    ultimately show ?thesis by blast
  qed
qed

lemma fifo_appends:
  assumes "1 \<le> C"
  shows "fifo C h b \<Longrightarrow> \<exists>b'. appends b xs = Inr b' \<and> fifo C (h @ xs) b'"
proof (induction xs arbitrary: h b)
  case Nil
  then show ?case by simp
next
  case (Cons x xs)
  from fifo_append_item [OF assms Cons.prems, of x]
  obtain b1 where a: "append_item b x = Inr b1" and f: "fifo C (h @ [x]) b1" by blast
  from Cons.IH [OF f] obtain b' where "appends b1 xs = Inr b'" and "fifo C ((h @ [x]) @ xs) b'"
    by blast
  with a show ?case by simp
qed

lemma fifo_perform:
  assumes "1 \<le> C" and "fifo C h b"
  shows "\<exists>b'. perform b c = Inr b' \<and> fifo C (h @ items_of [c]) b'"
proof (cases c)
  case (Append x)
  then show ?thesis using fifo_append_item [OF assms, of x] by simp
next
  case (Extend xs)
  then show ?thesis using fifo_appends [OF assms, of xs] by (simp add: extend_items_appends)
qed

lemma items_of_Cons: "items_of (c # cs) = items_of [c] @ items_of cs"
  by (cases c) simp_all

lemma fifo_run:
  assumes "1 \<le> C"
  shows "fifo C h b \<Longrightarrow> fifo C (h @ items_of cs) (run b cs)"
proof (induction cs arbitrary: h b)
  case Nil
  then show ?case by simp
next
  case (Cons c cs)
  from fifo_perform [OF assms Cons.prems, of c]
  obtain b1 where p: "perform b c = Inr b1" and f: "fifo C (h @ items_of [c]) b1" by blast
  from Cons.IH [OF f] have "fifo C (h @ items_of [c] @ items_of cs) (run b1 cs)" by simp
  with p show ?case by (simp add: items_of_Cons [of c cs])
qed

subsection \<open>Reading the buffer\<close>

lemma getitem_in_range:
  assumes "- len b \<le> i" and "i < len b"
  shows "getitem b i = Inr (data b ! nat ((offset b + i) mod len b))"
proof -
  let ?n = "int (length (data b))"
  let ?j = "(offset b + i) mod ?n"
  from assms have "0 < len b" by linarith
  then have pos: "0 < ?n" by (simp only: len_def)
  have md: "py_mod (offset b + i) ?n = Inr ?j"
    using pos by (simp add: py_mod_def)
  have "py_getitem (data b) ?j = Inr (data b ! nat ?j)"
    using pos by (intro py_getitem_nonneg) simp_all
  with md show ?thesis
    using assms by (simp add: getitem_def len_def)
qed

lemma getitem_out_of_range:
  assumes "i < - len b \<or> len b \<le> i"
  shows "getitem b i = Inl AssertionError"
  using assms by (auto simp add: getitem_def len_def Let_def)

lemma getitem_rotate:
  assumes "0 \<le> offset b" and "i < length (data b)"
  shows "getitem b (int i) = Inr (rotate (nat (offset b)) (data b) ! i)"
proof -
  from assms have "nat ((offset b + int i) mod len b) = (nat (offset b) + i) mod length (data b)"
    by (simp add: len_def nat_mod_distrib nat_add_distrib)
  then show ?thesis
    using assms getitem_in_range [of b "int i"] by (simp add: nth_rotate len_def)
qed

lemma fifo_len: "0 \<le> C \<Longrightarrow> fifo C h b \<Longrightarrow> len b = min (int (length h)) C"
  by (auto simp add: fifo_def len_def min_def)

lemma contents_fifo:
  assumes "fifo C h b"
  shows "contents b = map Inr (drop (length h - nat C) h)"
proof (rule nth_equalityI)
  from assms have o: "offset b = int (cursor C (length h))"
    and r: "rotate (cursor C (length h)) (data b) = drop (length h - nat C) h"
    by (simp_all add: fifo_def)
  from r have "length (data b) = length (drop (length h - nat C) h)"
    by (metis length_rotate)
  then show l: "length (contents b) = length (map Inr (drop (length h - nat C) h))"
    by (simp add: contents_def)
  fix i assume "i < length (contents b)"
  then have i: "i < length (data b)" by (simp add: contents_def)
  with l have "i < length (drop (length h - nat C) h)" by (simp add: contents_def)
  then show "contents b ! i = map Inr (drop (length h - nat C) h) ! i"
    using i getitem_rotate [OF _ i] r o
    by (simp add: contents_def)
qed

lemma getitem_contents:
  "i < length (data b) \<Longrightarrow> getitem b (int i) = contents b ! i"
  by (simp add: contents_def)

subsection \<open>A buffer of capacity zero\<close>

lemma append_item_zero:
  "append_item (init (Some 0)) x = Inl (IndexError, init (Some 0))"
  by (simp add: append_item_def init_def py_setitem_def)

lemma extend_items_zero:
  "extend_items (init (Some 0)) (x # xs) = Inl (IndexError, init (Some 0))"
  by (simp add: extend_items_def init_def py_setitem_def)

lemma perform_zero: "state_of (perform (init (Some 0)) c) = init (Some 0)"
proof (cases c)
  case (Append x)
  then show ?thesis by (simp add: append_item_zero)
next
  case (Extend xs)
  then show ?thesis
    by (cases xs) (simp_all add: extend_items_zero, simp add: extend_items_def init_def)
qed

lemma run_zero: "run (init (Some 0)) cs = init (Some 0)"
  by (induction cs) (simp_all add: perform_zero)

lemma drop_history:
  "n \<le> length xs \<Longrightarrow> drop (length (h @ xs) - n) (h @ xs) = drop (length xs - n) xs"
  by simp

subsection \<open>States reached from the constructor\<close>

lemma run_unbounded:
  "max_length b = None \<Longrightarrow> run b cs = b\<lparr>data := data b @ items_of cs\<rparr>"
proof (induction cs arbitrary: b)
  case Nil
  then show ?case by simp
next
  case (Cons c cs)
  show ?case
  proof (cases c)
    case (Append x)
    with Cons show ?thesis by (simp add: append_item_def)
  next
    case (Extend xs)
    with Cons show ?thesis by (simp add: extend_items_def)
  qed
qed

lemma fifo_reached: "1 \<le> C \<Longrightarrow> fifo C (items_of cs) (run (init (Some C)) cs)"
  using fifo_run [OF _ fifo_init, of C cs] by simp

lemma getitem_negative:
  assumes "1 \<le> k" and "k \<le> len b"
  shows "getitem b (- k) = getitem b (len b - k)"
proof -
  have "(offset b + (len b - k)) mod len b = (offset b + - k) mod len b"
    by (metis add.commute add_diff_eq mod_add_self1 uminus_add_conv_diff)
  then show ?thesis
    using assms getitem_in_range [of b "- k"] getitem_in_range [of b "len b - k"]
    by simp
qed

lemma getitem_fifo:
  assumes "fifo C h b" and "i < length (data b)"
  shows "getitem b (int i) = Inr (drop (length h - nat C) h ! i)"
proof -
  have "length (contents b) = length (data b)" by (simp add: contents_def)
  with assms(2) contents_fifo [OF assms(1)] have "i < length (drop (length h - nat C) h)"
    by (metis length_map)
  then show ?thesis
    using getitem_contents [OF assms(2)] contents_fifo [OF assms(1)] by simp
qed

lemma fifo_length: "fifo C h b \<Longrightarrow> length (data b) = min (length h) (nat C)"
  by (simp add: fifo_def)

lemma length_contents: "length (contents b) = length (data b)"
  by (simp add: contents_def)

lemma getitem_in_contents:
  assumes "- len b \<le> i" and "i < len b"
  shows "getitem b i \<in> set (contents b)"
proof (cases "0 \<le> i")
  case True
  with assms have "nat i < length (data b)" by (simp add: len_def)
  from getitem_contents [OF this] this True show ?thesis
    by (simp add: length_contents)
next
  case False
  with assms have k: "1 \<le> - i" "- i \<le> len b" by simp_all
  from False assms have "nat (len b + i) < length (data b)" by (simp add: len_def)
  from getitem_contents [OF this] this have "getitem b (int (nat (len b + i))) \<in> set (contents b)"
    by (simp add: length_contents)
  moreover from k have "int (nat (len b + i)) = len b - (- i)" by simp
  ultimately show ?thesis using getitem_negative [OF k] by simp
qed

lemma fifo_overwrite:
  assumes C: "1 \<le> C" and f: "fifo C h b" and full: "len b = C"
  shows "\<exists>b'. append_item b x = Inr b' \<and> fifo C (h @ [x]) b' \<and> len b' = C \<and>
           contents b' = tl (contents b) @ [Inr x]"
proof -
  from fifo_append_item [OF C f, of x]
  obtain b' where a: "append_item b x = Inr b'" and f': "fifo C (h @ [x]) b'" by blast
  from fifo_length [OF f] full C have n: "nat C \<le> length h" by (simp add: len_def)
  from C have l': "len b' = C" using fifo_len [OF _ f'] n by simp
  have "drop (length (h @ [x]) - nat C) (h @ [x]) = tl (drop (length h - nat C) h) @ [x]"
    using n C by (simp add: Suc_diff_le drop_Suc tl_drop)
  then have "contents b' = tl (contents b) @ [Inr x]"
    by (simp add: contents_fifo [OF f] contents_fifo [OF f'] map_tl)
  with a f' l' show ?thesis by blast
qed

lemma fifo_offset: "fifo C h b \<Longrightarrow> offset b = int (cursor C (length h))"
  by (simp add: fifo_def)

subsection \<open>Sampling\<close>

lemma py_getitems_in_range:
  "list_all (\<lambda>i. 0 \<le> i \<and> i < int (length xs)) idxs \<Longrightarrow>
   py_getitems xs idxs = Inr (map (\<lambda>i. xs ! nat i) idxs)"
  by (induction idxs) (simp_all add: py_getitem_nonneg)

lemma py_getitem_member: "py_getitem xs i = Inr x \<Longrightarrow> x \<in> set xs"
  by (auto simp add: py_getitem_def Let_def nat_less_iff split: if_splits)

lemma py_getitems_result:
  "py_getitems xs idxs = Inr ys \<Longrightarrow> set ys \<subseteq> set xs \<and> length ys = length idxs"
proof (induction idxs arbitrary: ys)
  case Nil
  then show ?case by simp
next
  case (Cons i idxs)
  then show ?case
    by (auto split: sum.splits dest: py_getitem_member)
qed

lemma item_at_logical_index:
  assumes "x \<in> set (data b)"
  shows "\<exists>i. 0 \<le> i \<and> i < len b \<and> getitem b i = Inr x"
proof -
  from assms obtain p where p: "p < length (data b)" and x: "data b ! p = x"
    by (auto simp add: in_set_conv_nth)
  let ?n = "len b"
  let ?i = "(int p - offset b) mod ?n"
  from p have pos: "0 < ?n" unfolding len_def by linarith
  then have r: "0 \<le> ?i" "?i < ?n" by simp_all
  have "(offset b + ?i) mod ?n = int p mod ?n"
    by (simp add: mod_add_right_eq)
  also have "\<dots> = int p" using p by (simp add: len_def)
  finally have "getitem b ?i = Inr (data b ! p)"
    using getitem_in_range [of b ?i] r by simp
  with r x show ?thesis by blast
qed

lemma set_contents:
  fixes b :: "'a ReplayBuffer"
  shows "set (contents b) = Inr ` set (data b)"
proof (intro set_eqI iffI)
  fix v assume "v \<in> set (contents b)"
  then obtain i where i: "i < length (data b)" and v: "v = getitem b (int i)"
    by (auto simp add: contents_def)
  from i have "0 < len b" unfolding len_def by linarith
  then have "nat ((offset b + int i) mod len b) < length (data b)"
    by (simp add: len_def nat_less_iff)
  with v i getitem_in_range [of b "int i"] show "v \<in> Inr ` set (data b)"
    by (simp add: len_def)
next
  fix v :: "error + 'a" assume "v \<in> Inr ` set (data b)"
  then obtain x where "x \<in> set (data b)" and v: "v = Inr x" by blast
  from item_at_logical_index [OF this(1)]
  obtain i where "0 \<le> i" "i < len b" "getitem b i = Inr x" by blast
  with getitem_in_contents [of b i] v show "v \<in> set (contents b)" by simp
qed

lemma full_draw:
  assumes "distinct idxs" and "length idxs = length xs"
    and "list_all (\<lambda>i. 0 \<le> i \<and> i < int (length xs)) idxs"
  shows "set (map (\<lambda>i. xs ! nat i) idxs) = set xs"
proof -
  have sub: "nat ` set idxs \<subseteq> {..<length xs}"
    using assms(3) by (auto simp add: list_all_iff nat_less_iff)
  have "inj_on nat (set idxs)"
    using assms(3) by (auto simp add: list_all_iff inj_on_def eq_nat_nat_iff)
  then have "card (nat ` set idxs) = length xs"
    using assms(1,2) by (simp add: card_image distinct_card)
  with sub have "nat ` set idxs = {..<length xs}"
    by (simp add: card_subset_eq)
  then have "(\<lambda>j. xs ! j) ` (nat ` set idxs) = set xs"
    by (simp add: nth_image [of "length xs" xs, simplified] lessThan_atLeast0)
  then show ?thesis by (simp add: image_image)
qed

lemma choice_contractD:
  assumes "choice_contract g n k" and "k \<le> n"
  shows "\<exists>idxs. choice g n k = Inr idxs \<and> int (length idxs) = k \<and> distinct idxs \<and>
           list_all (\<lambda>i. 0 \<le> i \<and> i < n) idxs"
  using assms by (auto simp add: choice_contract_def split: sum.splits)

lemma randint_contractD:
  assumes "randint_contract g n k"
  shows "\<exists>idxs. randint g n k = Inr idxs \<and> int (length idxs) = k \<and>
           list_all (\<lambda>i. 0 \<le> i \<and> i < n) idxs"
  using assms by (auto simp add: randint_contract_def split: sum.splits)

lemma sample_result:
  assumes "sample b k g r = Inr items"
  shows "set items \<subseteq> set (data b)"
proof (cases r)
  case True
  with assms obtain idxs where "py_getitems (data b) idxs = Inr items"
    by (auto simp add: sample_def split: sum.splits)
  then show ?thesis by (simp add: py_getitems_result)
next
  case False
  with assms obtain idxs where "py_getitems (data b) idxs = Inr items"
    by (auto simp add: sample_def split: sum.splits)
  then show ?thesis by (simp add: py_getitems_result)
qed

lemma sample_distinct_positions:
  assumes c: "choice_contract g (len b) k" and k: "k \<le> len b"
  shows "\<exists>idxs. choice g (len b) k = Inr idxs \<and> distinct idxs \<and> int (length idxs) = k \<and>
           (\<forall>i\<in>set idxs. 0 \<le> i \<and> i < len b) \<and>
           sample b k g False = Inr (map (\<lambda>i. data b ! nat i) idxs)"
proof -
  from choice_contractD [OF c k]
  obtain idxs where ch: "choice g (len b) k = Inr idxs" and l: "int (length idxs) = k"
    and d: "distinct idxs" and r: "list_all (\<lambda>i. 0 \<le> i \<and> i < len b) idxs" by blast
  from r have "py_getitems (data b) idxs = Inr (map (\<lambda>i. data b ! nat i) idxs)"
    by (intro py_getitems_in_range) (simp add: len_def)
  with ch have "sample b k g False = Inr (map (\<lambda>i. data b ! nat i) idxs)"
    by (simp add: sample_def len_def)
  with ch l d r show ?thesis by (auto simp add: list_all_iff)
qed

lemma sample_all:
  assumes c: "choice_contract g (len b) (len b)"
  shows "\<exists>items. sample b (len b) g False = Inr items \<and> int (length items) = len b \<and>
           set items = set (data b)"
proof -
  from sample_distinct_positions [OF c]
  obtain idxs where d: "distinct idxs" and l: "int (length idxs) = len b"
    and r: "\<forall>i\<in>set idxs. 0 \<le> i \<and> i < len b"
    and s: "sample b (len b) g False = Inr (map (\<lambda>i. data b ! nat i) idxs)" by auto
  from l have l': "length idxs = length (data b)" by (simp add: len_def)
  from r have "list_all (\<lambda>i. 0 \<le> i \<and> i < int (length (data b))) idxs"
    by (simp add: list_all_iff len_def)
  from full_draw [OF d l' this] s l show ?thesis by simp
qed

section \<open>The claims\<close>

text \<open>
  C4. For every buffer state and every finite list of items, \<^verbatim>\<open>extend(items)\<close> has the
  outcome of calling \<^verbatim>\<open>append\<close> once for each element in order: the same final state,
  or the same exception raised in the same state. An empty list changes nothing. When
  the list is at least as long as the capacity \<open>C \<ge> 1\<close> of a buffer reached from the
  constructor by any calls, the buffer holds exactly the last \<open>C\<close> items of the list
  afterwards, in order.
\<close>

theorem extend_is_repeated_append:
  "extend_items b items = appends b items \<and>
   extend_items b [] = Inr b \<and>
   (1 \<le> C \<and> nat C \<le> length items \<longrightarrow>
      (\<exists>b'. extend_items (run (init (Some C)) cs) items = Inr b' \<and>
            contents b' = map Inr (drop (length items - nat C) items)))"
proof (intro conjI impI)
  show "extend_items b items = appends b items"
    by (rule extend_items_appends)
  show "extend_items b [] = Inr b"
    by (simp add: extend_items_appends)
  assume a: "1 \<le> C \<and> nat C \<le> length items"
  then have C: "1 \<le> C" and n: "nat C \<le> length items" by simp_all
  have "fifo C ([] @ items_of cs) (run (init (Some C)) cs)"
    by (rule fifo_run [OF C fifo_init])
  from fifo_appends [OF C this, of items]
  obtain b' where e: "appends (run (init (Some C)) cs) items = Inr b'"
    and f: "fifo C (([] @ items_of cs) @ items) b'" by blast
  have "contents b' = map Inr (drop (length items - nat C) items)"
    using contents_fifo [OF f] drop_history [OF n, of "items_of cs"] by simp
  with e show "\<exists>b'. extend_items (run (init (Some C)) cs) items = Inr b' \<and>
            contents b' = map Inr (drop (length items - nat C) items)"
    by (simp add: extend_items_appends)
qed

theorem extend_is_repeated_append_witness:
  "(1 \<le> (2::int) \<and> nat 2 \<le> length [10, 20, 30 :: nat]) \<and>
   extend_items (init (Some 2)) [10, 20, 30 :: nat] = appends (init (Some 2)) [10, 20, 30] \<and>
   (\<exists>b'. extend_items (run (init (Some 2)) [Append 5]) [10, 20, 30 :: nat] = Inr b' \<and>
         contents b' = map Inr (drop (length [10, 20, 30 :: nat] - nat 2) [10, 20, 30]))"
proof -
  have h: "1 \<le> (2::int) \<and> nat 2 \<le> length [10, 20, 30 :: nat]" by simp
  from extend_is_repeated_append [of "init (Some 2)" "[10, 20, 30 :: nat]" 2 "[Append 5]"] h
  show ?thesis by blast
qed

text \<open>
  C10. \<^verbatim>\<open>ReplayBuffer(0)\<close> is constructed without error; the first \<^verbatim>\<open>append\<close>, and
  \<^verbatim>\<open>extend\<close> with a non-empty list, raise \<^verbatim>\<open>IndexError\<close>, as the overwrite branch
  assigns to slot 0 of the empty list, and leave the buffer as it was. Whatever calls
  follow, the buffer of capacity zero holds no item.
\<close>

theorem zero_capacity_never_holds:
  "init (Some 0) = \<lparr>max_length = Some 0, data = [], offset = 0\<rparr> \<and>
   append_item (init (Some 0)) x = Inl (IndexError, init (Some 0)) \<and>
   extend_items (init (Some 0)) (x # xs) = Inl (IndexError, init (Some 0)) \<and>
   data (run (init (Some 0)) cs) = [] \<and>
   len (run (init (Some 0)) cs) = 0"
  by (simp add: append_item_zero extend_items_zero run_zero) (simp add: init_def len_def)

text \<open>
  C1. After a list \<open>xs\<close> of items is appended, one call each, to a new buffer of capacity
  \<open>C \<ge> 1\<close>, every call has returned and the length is \<open>min (length xs) C\<close>; without a
  capacity the length is \<open>length xs\<close>. After any calls of \<^verbatim>\<open>append\<close> and \<^verbatim>\<open>extend\<close> on a
  buffer of capacity \<open>C \<ge> 0\<close> the length is the minimum of \<open>C\<close> and the number of items
  handed over, so it lies between 0 and \<open>C\<close>.
\<close>

theorem capacity_bound:
  "(1 \<le> C \<longrightarrow> (\<exists>b. appends (init (Some C)) xs = Inr b \<and> len b = min (int (length xs)) C)) \<and>
   (\<exists>b. appends (init None) xs = Inr b \<and> len b = int (length xs)) \<and>
   len (run (init None) cs) = int (length (items_of cs)) \<and>
   (0 \<le> C \<longrightarrow>
      len (run (init (Some C)) cs) = min (int (length (items_of cs))) C \<and>
      0 \<le> len (run (init (Some C)) cs) \<and> len (run (init (Some C)) cs) \<le> C)"
proof (intro conjI impI)
  assume C: "1 \<le> C"
  from fifo_appends [OF C fifo_init, of xs]
  obtain b where a: "appends (init (Some C)) xs = Inr b" and f: "fifo C ([] @ xs) b" by blast
  from C f have "len b = min (int (length xs)) C" by (simp add: fifo_len)
  with a show "\<exists>b. appends (init (Some C)) xs = Inr b \<and> len b = min (int (length xs)) C"
    by blast
next
  show "\<exists>b. appends (init None) xs = Inr b \<and> len b = int (length xs)"
    by (simp add: appends_unbounded init_def len_def)
next
  show "len (run (init None) cs) = int (length (items_of cs))"
    by (simp add: run_unbounded init_def len_def)
next
  assume C: "0 \<le> C"
  show l: "len (run (init (Some C)) cs) = min (int (length (items_of cs))) C"
  proof (cases "C = 0")
    case True
    then show ?thesis by (simp add: run_zero) (simp add: init_def len_def)
  next
    case False
    with C have "1 \<le> C" by simp
    from fifo_len [OF C fifo_reached [OF this]] show ?thesis .
  qed
  show "0 \<le> len (run (init (Some C)) cs)" by (simp add: len_def)
  from l show "len (run (init (Some C)) cs) \<le> C" by simp
qed

theorem capacity_bound_witness:
  "(1 \<le> (2::int) \<and> 0 \<le> (2::int)) \<and>
   (\<exists>b. appends (init (Some 2)) [7, 8, 9 :: nat] = Inr b \<and>
        len b = min (int (length [7, 8, 9 :: nat])) 2) \<and>
   len (run (init (Some 2)) [Append 7, Extend [8, 9 :: nat]]) =
     min (int (length (items_of [Append 7, Extend [8, 9 :: nat]]))) 2 \<and>
   len (run (init (Some 2)) [Append 7, Extend [8, 9 :: nat]]) \<le> 2"
proof -
  have h: "1 \<le> (2::int) \<and> 0 \<le> (2::int)" by simp
  from capacity_bound [of 2 "[7, 8, 9 :: nat]" "[Append 7, Extend [8, 9 :: nat]]"] h
  show ?thesis by blast
qed

text \<open>
  C3, as amended. In every state and for every integer \<open>i\<close>, \<^verbatim>\<open>buffer[i]\<close> raises exactly
  when \<open>i\<close> is outside \<open>[- len, len)\<close>, and what it raises is the \<^verbatim>\<open>AssertionError\<close> of the
  method's range assertion, never an \<^verbatim>\<open>IndexError\<close>; inside the window it returns a stored
  item. This is the method with its assertion in force, as Python runs it by default.
  With capacity 3, after appending \<open>A, B, C, D, E\<close>, the length is 3, the indices 0, 1, 2
  and -1 give \<open>C, D, E, E\<close>, and the indices 3 and -4 raise \<^verbatim>\<open>AssertionError\<close>.
\<close>

theorem getitem_range:
  "((\<exists>e. getitem b i = Inl e) \<longleftrightarrow> i < - len b \<or> len b \<le> i) \<and>
   (getitem b i = Inl AssertionError \<longleftrightarrow> i < - len b \<or> len b \<le> i) \<and>
   (- len b \<le> i \<and> i < len b \<longrightarrow> (\<exists>x. getitem b i = Inr x \<and> x \<in> set (data b))) \<and>
   (let b3 = run (init (Some 3)) [Append A, Append B, Append C, Append D, Append E]
    in len b3 = 3 \<and> getitem b3 0 = Inr C \<and> getitem b3 1 = Inr D \<and> getitem b3 2 = Inr E \<and>
       getitem b3 (- 1) = Inr E \<and>
       getitem b3 3 = Inl AssertionError \<and> getitem b3 (- 4) = Inl AssertionError)"
proof (intro conjI)
  have inr: "\<exists>x. getitem b i = Inr x \<and> x \<in> set (data b)" if "- len b \<le> i" "i < len b"
  proof -
    from that have "0 < len b" by linarith
    then have "nat ((offset b + i) mod len b) < length (data b)"
      by (simp add: len_def nat_less_iff)
    then show ?thesis using getitem_in_range [OF that] by simp
  qed
  then show "- len b \<le> i \<and> i < len b \<longrightarrow> (\<exists>x. getitem b i = Inr x \<and> x \<in> set (data b))"
    by blast
  show "(\<exists>e. getitem b i = Inl e) \<longleftrightarrow> i < - len b \<or> len b \<le> i"
  proof (cases "i < - len b \<or> len b \<le> i")
    case True
    then show ?thesis using getitem_out_of_range [of i b] by simp
  next
    case False
    then show ?thesis using inr [of] by (auto simp add: not_less not_le)
  qed
  show "getitem b i = Inl AssertionError \<longleftrightarrow> i < - len b \<or> len b \<le> i"
  proof (cases "i < - len b \<or> len b \<le> i")
    case True
    then show ?thesis using getitem_out_of_range [of i b] by simp
  next
    case False
    then show ?thesis using inr [of] by (auto simp add: not_less not_le)
  qed
  show "let b3 = run (init (Some 3)) [Append A, Append B, Append C, Append D, Append E]
    in len b3 = 3 \<and> getitem b3 0 = Inr C \<and> getitem b3 1 = Inr D \<and> getitem b3 2 = Inr E \<and>
       getitem b3 (- 1) = Inr E \<and>
       getitem b3 3 = Inl AssertionError \<and> getitem b3 (- 4) = Inl AssertionError"
    by (simp add: init_def append_item_def py_setitem_def py_mod_def len_def getitem_def
        py_getitem_def)
qed

theorem getitem_range_witness:
  "(- len \<lparr>max_length = Some 3, data = [4, 5, 3 :: nat], offset = 2\<rparr> \<le> 1 \<and>
    1 < len \<lparr>max_length = Some 3, data = [4, 5, 3 :: nat], offset = 2\<rparr>) \<and>
   (\<exists>x. getitem \<lparr>max_length = Some 3, data = [4, 5, 3 :: nat], offset = 2\<rparr> 1 = Inr x \<and>
        x \<in> set (data \<lparr>max_length = Some 3, data = [4, 5, 3 :: nat], offset = 2\<rparr>))"
proof -
  have h: "- len \<lparr>max_length = Some 3, data = [4, 5, 3 :: nat], offset = 2\<rparr> \<le> 1 \<and>
    1 < len \<lparr>max_length = Some 3, data = [4, 5, 3 :: nat], offset = 2\<rparr>"
    by (simp add: len_def)
  note r = getitem_range [where b = "\<lparr>max_length = Some 3, data = [4, 5, 3 :: nat], offset = 2\<rparr>"
      and i = 1, THEN conjunct2, THEN conjunct2, THEN conjunct1]
  from r h show ?thesis by blast
qed

text \<open>
  C3 as it was stated fails on its own scenario. With capacity 3, after appending
  1, 2, 3, 4, 5, the indices 3 and -4 do not raise an \<^verbatim>\<open>IndexError\<close> but the
  \<^verbatim>\<open>AssertionError\<close> of the range check; and the body of the method without that
  assertion wraps: at index 3 it returns the item 3, which is \<^verbatim>\<open>buffer[0]\<close>.
\<close>

theorem getitem_index_error_counterexample:
  "getitem (run (init (Some 3)) [Append (1::nat), Append 2, Append 3, Append 4, Append 5]) 3
     = Inl AssertionError \<and>
   getitem (run (init (Some 3)) [Append (1::nat), Append 2, Append 3, Append 4, Append 5]) 3
     \<noteq> Inl IndexError \<and>
   getitem (run (init (Some 3)) [Append (1::nat), Append 2, Append 3, Append 4, Append 5]) (- 4)
     \<noteq> Inl IndexError \<and>
   getitem_unchecked
     (run (init (Some 3)) [Append (1::nat), Append 2, Append 3, Append 4, Append 5]) 3
     = Inr 3"
  by (simp add: init_def append_item_def py_setitem_def py_mod_def getitem_def
      getitem_unchecked_def py_getitem_def)

text \<open>
  C7. In every state, \<^verbatim>\<open>buffer[-k]\<close> is \<^verbatim>\<open>buffer[len - k]\<close> for \<open>1 \<le> k \<le> len\<close>, in
  particular \<^verbatim>\<open>buffer[-1]\<close> is \<^verbatim>\<open>buffer[len - 1]\<close>. In every non-empty state reached from
  the constructor, full or not, \<^verbatim>\<open>buffer[0]\<close> is the oldest item that survives: of the
  items handed over, the one \<open>min (number of items) C\<close> places from the end, and the
  first one when there is no capacity.
\<close>

theorem index_symmetry:
  "(1 \<le> k \<and> k \<le> len b \<longrightarrow> getitem b (- k) = getitem b (len b - k)) \<and>
   (1 \<le> len b \<longrightarrow> getitem b (- 1) = getitem b (len b - 1)) \<and>
   (1 \<le> C \<and> items_of cs \<noteq> [] \<longrightarrow>
      getitem (run (init (Some C)) cs) 0 =
        Inr (items_of cs ! (length (items_of cs) - nat C))) \<and>
   (items_of cs \<noteq> [] \<longrightarrow> getitem (run (init None) cs) 0 = Inr (items_of cs ! 0))"
proof (intro conjI impI)
  assume "1 \<le> k \<and> k \<le> len b"
  then show "getitem b (- k) = getitem b (len b - k)"
    by (simp add: getitem_negative)
next
  assume "1 \<le> len b"
  then show "getitem b (- 1) = getitem b (len b - 1)"
    using getitem_negative [of 1 b] by simp
next
  assume a: "1 \<le> C \<and> items_of cs \<noteq> []"
  let ?b = "run (init (Some C)) cs"
  from a have f: "fifo C (items_of cs) ?b" by (simp add: fifo_reached)
  from a fifo_length [OF f] have pos: "0 < length (data ?b)" by simp
  from getitem_fifo [OF f pos]
  show "getitem ?b 0 = Inr (items_of cs ! (length (items_of cs) - nat C))"
    using a by simp
next
  assume a: "items_of cs \<noteq> []"
  have r: "run (init None) cs = \<lparr>max_length = None, data = items_of cs, offset = 0\<rparr>"
    by (simp add: run_unbounded init_def)
  show "getitem (run (init None) cs) 0 = Inr (items_of cs ! 0)"
    using a getitem_in_range [of "run (init None) cs" 0] by (simp add: r len_def)
qed

theorem index_symmetry_witness:
  "(1 \<le> (2::int) \<and> 2 \<le> len (run (init (Some 3)) [Extend [1, 2, 3, 4, 5 :: nat]])) \<and>
   (1 \<le> (3::int) \<and> items_of [Extend [1, 2, 3, 4, 5 :: nat]] \<noteq> []) \<and>
   getitem (run (init (Some 3)) [Extend [1, 2, 3, 4, 5 :: nat]]) (- 2) =
     getitem (run (init (Some 3)) [Extend [1, 2, 3, 4, 5 :: nat]])
       (len (run (init (Some 3)) [Extend [1, 2, 3, 4, 5 :: nat]]) - 2) \<and>
   getitem (run (init (Some 3)) [Extend [1, 2, 3, 4, 5 :: nat]]) 0 =
     Inr (items_of [Extend [1, 2, 3, 4, 5 :: nat]] !
       (length (items_of [Extend [1, 2, 3, 4, 5 :: nat]]) - nat 3))"
proof -
  have h: "(1 \<le> (2::int) \<and> 2 \<le> len (run (init (Some 3)) [Extend [1, 2, 3, 4, 5 :: nat]])) \<and>
   (1 \<le> (3::int) \<and> items_of [Extend [1, 2, 3, 4, 5 :: nat]] \<noteq> [])"
    by (simp add: init_def extend_items_def py_setitem_def py_mod_def len_def)
  from index_symmetry [where k = 2 and C = 3 and cs = "[Extend [1, 2, 3, 4, 5 :: nat]]"
      and b = "run (init (Some 3)) [Extend [1, 2, 3, 4, 5 :: nat]]"] h
  show ?thesis by blast
qed

text \<open>
  C2. Let \<open>C \<ge> 1\<close>. Appending \<open>C + 1\<close> items \<open>x\<^sub>0, \<dots>, x\<^sub>C\<close> to a new buffer of capacity
  \<open>C\<close> leaves the contents \<open>x\<^sub>1, \<dots>, x\<^sub>C\<close>, read back oldest first: \<^verbatim>\<open>buffer[i]\<close> is
  \<open>x\<^sub>i\<^sub>+\<^sub>1\<close> for \<open>0 \<le> i < C\<close>. In every full state reached from the constructor, one more
  \<^verbatim>\<open>append\<close> returns, keeps the length, puts the new item at index \<open>len - 1\<close>, and moves
  every other item one index down, so that the contents are the old ones without their
  first, followed by the new item; when the retained items and the new one are pairwise
  different, no index gives the item that was the oldest.
\<close>

theorem fifo_eviction:
  assumes "1 \<le> C"
  shows "(length xs = Suc (nat C) \<longrightarrow>
           (\<exists>b. appends (init (Some C)) xs = Inr b \<and> len b = C \<and>
                contents b = map Inr (tl xs) \<and>
                (\<forall>i. 0 \<le> i \<and> i < C \<longrightarrow> getitem b i = Inr (xs ! Suc (nat i))))) \<and>
         (len (run (init (Some C)) cs) = C \<longrightarrow>
           (\<exists>b'. append_item (run (init (Some C)) cs) x = Inr b' \<and> len b' = C \<and>
                 getitem b' (len b' - 1) = Inr x \<and>
                 contents b' = tl (contents (run (init (Some C)) cs)) @ [Inr x] \<and>
                 (\<forall>i. 0 \<le> i \<and> i < C - 1 \<longrightarrow>
                      getitem b' i = getitem (run (init (Some C)) cs) (i + 1)) \<and>
                 (distinct (contents (run (init (Some C)) cs)) \<and>
                  Inr x \<notin> set (contents (run (init (Some C)) cs)) \<longrightarrow>
                    (\<forall>i. getitem b' i \<noteq> getitem (run (init (Some C)) cs) 0))))"
proof (intro conjI impI)
  assume l: "length xs = Suc (nat C)"
  from fifo_appends [OF assms fifo_init, of xs]
  obtain b where a: "appends (init (Some C)) xs = Inr b" and f: "fifo C ([] @ xs) b" by blast
  from f have f: "fifo C xs b" by simp
  from fifo_len [OF _ f] assms l have lb: "len b = C" by simp
  from contents_fifo [OF f] l have c: "contents b = map Inr (tl xs)"
    by (simp add: drop_Suc)
  have "getitem b i = Inr (xs ! Suc (nat i))" if "0 \<le> i \<and> i < C" for i
  proof -
    from that lb have i: "nat i < length (data b)" unfolding len_def by linarith
    from getitem_fifo [OF f i] that l show ?thesis by (simp add: nth_tl drop_Suc)
  qed
  with a lb c show "\<exists>b. appends (init (Some C)) xs = Inr b \<and> len b = C \<and>
                contents b = map Inr (tl xs) \<and>
                (\<forall>i. 0 \<le> i \<and> i < C \<longrightarrow> getitem b i = Inr (xs ! Suc (nat i)))"
    by blast
next
  let ?b = "run (init (Some C)) cs"
  assume full: "len ?b = C"
  from fifo_overwrite [OF assms fifo_reached [OF assms] full, of x]
  obtain b' where a: "append_item ?b x = Inr b'" and l': "len b' = C"
    and c: "contents b' = tl (contents ?b) @ [Inr x]" by blast
  from full assms have lc: "length (contents ?b) = nat C" and ld: "length (data ?b) = nat C"
    by (simp_all add: length_contents len_def)
  from l' assms have ld': "length (data b') = nat C" by (simp add: len_def)
  from lc assms have ne: "contents ?b \<noteq> []" by auto
  have last: "getitem b' (len b' - 1) = Inr x"
  proof -
    from ld' assms have i: "nat C - 1 < length (data b')" by simp
    from assms l' have "len b' - 1 = int (nat C - 1)" by simp
    with getitem_contents [OF i] have "getitem b' (len b' - 1) = contents b' ! (nat C - 1)"
      by simp
    also have "\<dots> = Inr x"
      using lc by (simp add: c nth_append)
    finally show ?thesis .
  qed
  have shift: "getitem b' i = getitem ?b (i + 1)" if "0 \<le> i \<and> i < C - 1" for i
  proof -
    from that ld' have i: "nat i < length (data b')" by linarith
    from that ld have j: "Suc (nat i) < length (data ?b)" by linarith
    from that lc have t: "nat i < length (tl (contents ?b))" by simp linarith
    have "getitem b' (int (nat i)) = contents b' ! nat i"
      by (rule getitem_contents [OF i])
    also have "\<dots> = contents ?b ! Suc (nat i)"
      using t by (simp add: c nth_append nth_tl)
    also have "\<dots> = getitem ?b (int (Suc (nat i)))"
      by (rule getitem_contents [OF j, symmetric])
    finally show ?thesis using that by (simp add: add.commute)
  qed
  have gone: "getitem b' i \<noteq> getitem ?b 0"
    if d: "distinct (contents ?b) \<and> Inr x \<notin> set (contents ?b)" for i
  proof (cases "- len b' \<le> i \<and> i < len b'")
    case True
    then have m: "getitem b' i \<in> set (tl (contents ?b)) \<union> {Inr x}"
      using getitem_in_contents [of b' i] by (simp add: c)
    from ld assms have "0 < length (data ?b)" by simp
    from getitem_contents [OF this] have g0: "getitem ?b 0 = hd (contents ?b)"
      using ne by (simp add: hd_conv_nth)
    from ne d have "hd (contents ?b) \<notin> set (tl (contents ?b))"
      by (cases "contents ?b") simp_all
    moreover from ne d have "hd (contents ?b) \<noteq> Inr x"
      by (cases "contents ?b") auto
    ultimately show ?thesis using m g0 by auto
  next
    case False
    then have "getitem b' i = Inl AssertionError"
      using getitem_out_of_range [of i b'] by auto
    moreover from assms full have "\<exists>v. getitem ?b 0 = Inr v"
      using getitem_in_range [of ?b 0] by simp
    ultimately show ?thesis by auto
  qed
  from a l' last c shift gone
  show "\<exists>b'. append_item ?b x = Inr b' \<and> len b' = C \<and>
                 getitem b' (len b' - 1) = Inr x \<and>
                 contents b' = tl (contents ?b) @ [Inr x] \<and>
                 (\<forall>i. 0 \<le> i \<and> i < C - 1 \<longrightarrow> getitem b' i = getitem ?b (i + 1)) \<and>
                 (distinct (contents ?b) \<and> Inr x \<notin> set (contents ?b) \<longrightarrow>
                    (\<forall>i. getitem b' i \<noteq> getitem ?b 0))"
    by blast
qed

theorem fifo_eviction_witness:
  "(1 \<le> (2::int) \<and> length [1, 2, 3 :: nat] = Suc (nat 2) \<and>
    len (run (init (Some 2)) [Append 1, Append (2::nat)]) = 2) \<and>
   (\<exists>b. appends (init (Some 2)) [1, 2, 3 :: nat] = Inr b \<and> len b = 2 \<and>
        contents b = map Inr (tl [1, 2, 3 :: nat])) \<and>
   (\<exists>b'. append_item (run (init (Some 2)) [Append 1, Append (2::nat)]) 3 = Inr b' \<and>
         getitem b' (len b' - 1) = Inr 3 \<and>
         contents b' = tl (contents (run (init (Some 2)) [Append 1, Append (2::nat)])) @ [Inr 3])"
proof -
  have h1: "1 \<le> (2::int)" by simp
  have h2: "length [1, 2, 3 :: nat] = Suc (nat 2)" by simp
  have h3: "len (run (init (Some 2)) [Append 1, Append (2::nat)]) = 2"
    by (simp add: init_def append_item_def len_def)
  from fifo_eviction [OF h1, of "[1, 2, 3 :: nat]" "[Append 1, Append (2::nat)]" 3] h1 h2 h3
  show ?thesis by blast
qed

text \<open>
  C8. In every state reached from the constructor with capacity \<open>C \<ge> 1\<close>, the write
  position is in \<open>[0, C)\<close>. When the buffer is full, the slot at the write position holds
  the oldest surviving item, which is \<^verbatim>\<open>buffer[0]\<close>, and an \<^verbatim>\<open>append\<close> moves the position
  to the next slot modulo \<open>C\<close>. While the buffer is not full the position is 0, and an
  \<^verbatim>\<open>append\<close> leaves it there.
\<close>

theorem write_cursor_invariant:
  assumes "1 \<le> C"
  shows "0 \<le> offset (run (init (Some C)) cs) \<and> offset (run (init (Some C)) cs) < C \<and>
   (len (run (init (Some C)) cs) = C \<longrightarrow>
      py_getitem (data (run (init (Some C)) cs)) (offset (run (init (Some C)) cs)) =
        Inr (items_of cs ! (length (items_of cs) - nat C)) \<and>
      getitem (run (init (Some C)) cs) 0 =
        Inr (items_of cs ! (length (items_of cs) - nat C)) \<and>
      (\<exists>b'. append_item (run (init (Some C)) cs) x = Inr b' \<and>
            offset b' = (offset (run (init (Some C)) cs) + 1) mod C)) \<and>
   (len (run (init (Some C)) cs) < C \<longrightarrow>
      offset (run (init (Some C)) cs) = 0 \<and>
      (\<exists>b'. append_item (run (init (Some C)) cs) x = Inr b' \<and> offset b' = 0))"
proof -
  let ?b = "run (init (Some C)) cs"
  let ?h = "items_of cs"
  have f: "fifo C ?h ?b" by (rule fifo_reached [OF assms])
  have o: "offset ?b = int (cursor C (length ?h))" by (rule fifo_offset [OF f])
  have l: "length (data ?b) = min (length ?h) (nat C)" by (rule fifo_length [OF f])
  from fifo_append_item [OF assms f, of x]
  obtain b' where a: "append_item ?b x = Inr b'" and f': "fifo C (?h @ [x]) b'" by blast
  have o': "offset b' = int (cursor C (Suc (length ?h)))"
    using fifo_offset [OF f'] by simp
  have range: "0 \<le> offset ?b \<and> offset ?b < C"
    using cursor_less [OF assms, of "length ?h"] by (simp add: o)
  have full: "py_getitem (data ?b) (offset ?b) = Inr (?h ! (length ?h - nat C)) \<and>
      getitem ?b 0 = Inr (?h ! (length ?h - nat C)) \<and>
      (\<exists>b'. append_item ?b x = Inr b' \<and> offset b' = (offset ?b + 1) mod C)"
    if full: "len ?b = C"
  proof -
    from full l assms have n: "nat C \<le> length ?h" and ld: "length (data ?b) = nat C"
      by (simp_all add: len_def)
    from ld assms have pos: "0 < length (data ?b)" by simp
    from getitem_fifo [OF f pos] n
    have g: "getitem ?b 0 = Inr (?h ! (length ?h - nat C))" by simp
    from range full have "(offset ?b + 0) mod len ?b = offset ?b" by simp
    with getitem_in_range [of ?b 0] full assms
    have g': "getitem ?b 0 = Inr (data ?b ! nat (offset ?b))" by simp
    from range full have "py_getitem (data ?b) (offset ?b) = Inr (data ?b ! nat (offset ?b))"
      by (intro py_getitem_nonneg) (simp_all add: len_def)
    with g g' have p: "py_getitem (data ?b) (offset ?b) = Inr (?h ! (length ?h - nat C))"
      by simp
    from n have "cursor C (Suc (length ?h)) = Suc (cursor C (length ?h)) mod nat C"
      by (simp add: cursor_Suc [OF assms])
    with o o' assms have "offset b' = (offset ?b + 1) mod C"
      by (simp add: zmod_int add.commute)
    with a p g show ?thesis by blast
  qed
  have part: "offset ?b = 0 \<and> (\<exists>b'. append_item ?b x = Inr b' \<and> offset b' = 0)"
    if less: "len ?b < C"
  proof -
    from less l have n: "length ?h < nat C" by (simp add: len_def)
    from n have "cursor C (length ?h) = 0"
      by (simp add: cursor_def)
    moreover from n have "cursor C (Suc (length ?h)) = 0"
      by (simp add: cursor_Suc [OF assms])
    ultimately have "cursor C (length ?h) = 0" and "cursor C (Suc (length ?h)) = 0"
      by simp_all
    with o o' a show ?thesis by simp
  qed
  from range full part show ?thesis by blast
qed

theorem write_cursor_invariant_witness:
  "(1 \<le> (2::int) \<and> len (run (init (Some 2)) [Extend [1, 2, 3 :: nat]]) = 2) \<and>
   py_getitem (data (run (init (Some 2)) [Extend [1, 2, 3 :: nat]]))
      (offset (run (init (Some 2)) [Extend [1, 2, 3 :: nat]])) =
        Inr (items_of [Extend [1, 2, 3 :: nat]] ! (length (items_of [Extend [1, 2, 3 :: nat]]) - nat 2)) \<and>
   (\<exists>b'. append_item (run (init (Some 2)) [Extend [1, 2, 3 :: nat]]) 4 = Inr b' \<and>
         offset b' = (offset (run (init (Some 2)) [Extend [1, 2, 3 :: nat]]) + 1) mod 2)"
proof -
  have h1: "1 \<le> (2::int)" by simp
  have h2: "len (run (init (Some 2)) [Extend [1, 2, 3 :: nat]]) = 2"
    by (simp add: init_def extend_items_def py_setitem_def py_mod_def len_def)
  from write_cursor_invariant [OF h1, of "[Extend [1, 2, 3 :: nat]]" 4] h1 h2
  show ?thesis by blast
qed

text \<open>
  C9. In a full state (capacity \<open>C \<ge> 1\<close>, \<open>C\<close> items stored, write position in
  \<open>[0, C)\<close>), \<^verbatim>\<open>append\<close> returns and changes the stored list at the write position only:
  that slot holds the new item, every other slot holds what it held, the length is still
  \<open>C\<close>, the capacity field is untouched and the position moves on by one modulo \<open>C\<close>.
  Every full state reached from the constructor is such a state.
\<close>

theorem overwrite_in_place:
  "(max_length b = Some C \<and> 1 \<le> C \<and> len b = C \<and> 0 \<le> offset b \<and> offset b < C \<longrightarrow>
      (\<exists>b'. append_item b x = Inr b' \<and>
            data b' = (data b)[nat (offset b) := x] \<and>
            length (data b') = length (data b) \<and> len b' = C \<and>
            data b' ! nat (offset b) = x \<and>
            (\<forall>j. j < length (data b) \<and> j \<noteq> nat (offset b) \<longrightarrow> data b' ! j = data b ! j) \<and>
            max_length b' = max_length b \<and>
            offset b' = (offset b + 1) mod C)) \<and>
   (1 \<le> C \<and> len (run (init (Some C)) cs) = C \<longrightarrow>
      max_length (run (init (Some C)) cs) = Some C \<and>
      0 \<le> offset (run (init (Some C)) cs) \<and> offset (run (init (Some C)) cs) < C)"
proof (intro conjI impI)
  assume a: "max_length b = Some C \<and> 1 \<le> C \<and> len b = C \<and> 0 \<le> offset b \<and> offset b < C"
  then have k: "nat (offset b) < length (data b)" unfolding len_def by linarith
  from a have st: "py_setitem (data b) (offset b) x = Inr ((data b)[nat (offset b) := x])"
    using py_setitem_nonneg [OF k, of x] by simp
  from a have md: "py_mod (offset b + 1) C = Inr ((offset b + 1) mod C)"
    by (simp add: py_mod_def)
  let ?b' = "b\<lparr>data := (data b)[nat (offset b) := x], offset := (offset b + 1) mod C\<rparr>"
  from a have "append_item b x = Inr ?b'"
    by (simp add: append_item_def st md len_def)
  moreover have "data ?b' = (data b)[nat (offset b) := x]" by simp
  moreover have "length (data ?b') = length (data b)" by simp
  moreover from a have "len ?b' = C" by (simp add: len_def)
  moreover from k have "data ?b' ! nat (offset b) = x" by simp
  moreover have "\<forall>j. j < length (data b) \<and> j \<noteq> nat (offset b) \<longrightarrow> data ?b' ! j = data b ! j"
    by simp
  moreover have "max_length ?b' = max_length b" by simp
  moreover have "offset ?b' = (offset b + 1) mod C" by simp
  ultimately show "\<exists>b'. append_item b x = Inr b' \<and>
            data b' = (data b)[nat (offset b) := x] \<and>
            length (data b') = length (data b) \<and> len b' = C \<and>
            data b' ! nat (offset b) = x \<and>
            (\<forall>j. j < length (data b) \<and> j \<noteq> nat (offset b) \<longrightarrow> data b' ! j = data b ! j) \<and>
            max_length b' = max_length b \<and>
            offset b' = (offset b + 1) mod C"
    by blast
next
  assume a: "1 \<le> C \<and> len (run (init (Some C)) cs) = C"
  then have C: "1 \<le> C" by simp
  have f: "fifo C (items_of cs) (run (init (Some C)) cs)" by (rule fifo_reached [OF C])
  then show "max_length (run (init (Some C)) cs) = Some C" by (simp add: fifo_def)
  show "0 \<le> offset (run (init (Some C)) cs)" by (simp add: fifo_offset [OF f])
  show "offset (run (init (Some C)) cs) < C"
    using cursor_less [OF C, of "length (items_of cs)"] by (simp add: fifo_offset [OF f])
qed

theorem overwrite_in_place_witness:
  "(max_length \<lparr>max_length = Some 2, data = [3, 2 :: nat], offset = 1\<rparr> = Some 2 \<and> 1 \<le> (2::int) \<and>
    len \<lparr>max_length = Some 2, data = [3, 2 :: nat], offset = 1\<rparr> = 2 \<and>
    0 \<le> offset \<lparr>max_length = Some 2, data = [3, 2 :: nat], offset = 1\<rparr> \<and>
    offset \<lparr>max_length = Some 2, data = [3, 2 :: nat], offset = 1\<rparr> < 2) \<and>
   (\<exists>b'. append_item \<lparr>max_length = Some 2, data = [3, 2 :: nat], offset = 1\<rparr> 4 = Inr b' \<and>
         data b' = (data \<lparr>max_length = Some 2, data = [3, 2 :: nat], offset = 1\<rparr>)
                     [nat (offset \<lparr>max_length = Some 2, data = [3, 2 :: nat], offset = 1\<rparr>) := 4] \<and>
         len b' = 2)"
proof -
  have h: "max_length \<lparr>max_length = Some 2, data = [3, 2 :: nat], offset = 1\<rparr> = Some 2 \<and> 1 \<le> (2::int) \<and>
    len \<lparr>max_length = Some 2, data = [3, 2 :: nat], offset = 1\<rparr> = 2 \<and>
    0 \<le> offset \<lparr>max_length = Some 2, data = [3, 2 :: nat], offset = 1\<rparr> \<and>
    offset \<lparr>max_length = Some 2, data = [3, 2 :: nat], offset = 1\<rparr> < 2"
    by (simp add: len_def)
  note r = overwrite_in_place [where b = "\<lparr>max_length = Some 2, data = [3, 2 :: nat], offset = 1\<rparr>"
      and C = 2 and x = 4, THEN conjunct1]
  from r h show ?thesis by blast
qed

text \<open>
  C5. Let the generator's \<^verbatim>\<open>choice\<close> behave as documented at this call and let
  \<open>k \<ge> 0\<close>. When \<open>k \<le> len\<close>, \<^verbatim>\<open>sample(k, replace=False)\<close> returns the items stored at \<open>k\<close>
  pairwise different positions, in the order drawn. When \<open>k > len\<close> it raises the
  generator's \<^verbatim>\<open>ValueError\<close>. When \<open>k = len\<close> the result holds exactly the stored items;
  in particular, with contents \<open>[X, Y]\<close>, \<^verbatim>\<open>sample(2, replace=False)\<close> returns two items
  whose set is \<open>{X, Y}\<close>.
\<close>

theorem sample_without_replacement:
  assumes "choice_contract g (len b) k" and "0 \<le> k"
  shows "(k \<le> len b \<longrightarrow>
            (\<exists>idxs. choice g (len b) k = Inr idxs \<and> distinct idxs \<and> int (length idxs) = k \<and>
                   (\<forall>i\<in>set idxs. 0 \<le> i \<and> i < len b) \<and>
                   sample b k g False = Inr (map (\<lambda>i. data b ! nat i) idxs))) \<and>
         (len b < k \<longrightarrow> sample b k g False = Inl ValueError) \<and>
         (k = len b \<longrightarrow>
            (\<exists>items. sample b k g False = Inr items \<and> int (length items) = k \<and>
                     set items = set (data b))) \<and>
         (k = 2 \<and> contents b = [Inr X, Inr Y] \<longrightarrow>
            (\<exists>items. sample b 2 g False = Inr items \<and> length items = 2 \<and> set items = {X, Y}))"
proof (intro conjI impI)
  assume "k \<le> len b"
  with assms(1) show "\<exists>idxs. choice g (len b) k = Inr idxs \<and> distinct idxs \<and>
      int (length idxs) = k \<and> (\<forall>i\<in>set idxs. 0 \<le> i \<and> i < len b) \<and>
      sample b k g False = Inr (map (\<lambda>i. data b ! nat i) idxs)"
    by (rule sample_distinct_positions)
next
  assume "len b < k"
  with assms(1) have "choice g (len b) k = Inl ValueError"
    by (simp add: choice_contract_def)
  then show "sample b k g False = Inl ValueError"
    by (simp add: sample_def len_def)
next
  assume "k = len b"
  with assms(1) sample_all [of g b]
  show "\<exists>items. sample b k g False = Inr items \<and> int (length items) = k \<and>
      set items = set (data b)"
    by simp
next
  assume a: "k = 2 \<and> contents b = [Inr X, Inr Y]"
  then have "length (contents b) = 2" by simp
  then have l: "len b = 2" by (simp add: length_contents len_def)
  from a have "Inr ` set (data b) = {Inr X, Inr Y :: error + 'a}"
    using set_contents [of b] by simp
  then have "Inr ` set (data b) = (Inr :: 'a \<Rightarrow> error + 'a) ` {X, Y}" by simp
  then have s: "set (data b) = {X, Y}"
    by (simp only: inj_image_eq_iff [OF inj_Inr])
  from a l assms(1) sample_all [of g b]
  obtain items where "sample b 2 g False = Inr items" and "int (length items) = 2"
    and "set items = set (data b)" by auto
  with s show "\<exists>items. sample b 2 g False = Inr items \<and> length items = 2 \<and> set items = {X, Y}"
    by auto
qed

theorem sample_without_replacement_witness:
  "(choice_contract \<lparr>randint = (\<lambda>n k. Inr [0, 0]), choice = (\<lambda>n k. Inr [1, 0])\<rparr>
      (len (run (init (Some 2)) [Append (7::nat), Append 8, Append 9])) 2 \<and> 0 \<le> (2::int)) \<and>
   (2 = (2::int) \<and> contents (run (init (Some 2)) [Append (7::nat), Append 8, Append 9]) = [Inr 8, Inr 9]) \<and>
   (\<exists>items. sample (run (init (Some 2)) [Append (7::nat), Append 8, Append 9]) 2
              \<lparr>randint = (\<lambda>n k. Inr [0, 0]), choice = (\<lambda>n k. Inr [1, 0])\<rparr> False = Inr items \<and>
            length items = 2 \<and> set items = {8, 9})"
proof -
  let ?g = "\<lparr>randint = (\<lambda>n k. Inr [0, 0]), choice = (\<lambda>n k. Inr [1, 0])\<rparr>"
  let ?b = "run (init (Some 2)) [Append (7::nat), Append 8, Append 9]"
  have b: "?b = \<lparr>max_length = Some 2, data = [9, 8], offset = 1\<rparr>"
    by (simp add: init_def append_item_def py_setitem_def py_mod_def)
  have h1: "choice_contract ?g (len ?b) 2"
    unfolding b by (simp add: len_def choice_contract_def)
  have h2: "0 \<le> (2::int)" by simp
  have h3: "2 = (2::int) \<and> contents ?b = [Inr 8, Inr 9]"
    unfolding b by (simp add: contents_def getitem_def py_mod_def py_getitem_def upt_rec)
  note r = sample_without_replacement [OF h1 h2, of 8 9, THEN conjunct2, THEN conjunct2,
      THEN conjunct2]
  from r h1 h2 h3 show ?thesis by blast
qed

text \<open>
  C6. Whatever the generator returns, every item of a result of \<^verbatim>\<open>sample\<close>, in both
  modes, is stored in the buffer and is \<^verbatim>\<open>buffer[i]\<close> for some \<open>0 \<le> i < len\<close>. With a
  generator that behaves as documented, \<^verbatim>\<open>sample\<close> with replacement on a non-empty
  buffer returns exactly \<open>k\<close> such items for every \<open>k \<ge> 0\<close>, and without replacement it
  does for every \<open>0 \<le> k \<le> len\<close>.
\<close>

theorem sample_from_contents:
  "(sample b k g r = Inr items \<longrightarrow>
      (\<forall>x\<in>set items. x \<in> set (data b) \<and> (\<exists>i. 0 \<le> i \<and> i < len b \<and> getitem b i = Inr x))) \<and>
   (0 < len b \<and> 0 \<le> k \<and> randint_contract g (len b) k \<longrightarrow>
      (\<exists>items. sample b k g True = Inr items \<and> int (length items) = k \<and>
         (\<forall>x\<in>set items. \<exists>i. 0 \<le> i \<and> i < len b \<and> getitem b i = Inr x))) \<and>
   (0 \<le> k \<and> k \<le> len b \<and> choice_contract g (len b) k \<longrightarrow>
      (\<exists>items. sample b k g False = Inr items \<and> int (length items) = k \<and>
         (\<forall>x\<in>set items. \<exists>i. 0 \<le> i \<and> i < len b \<and> getitem b i = Inr x)))"
proof -
  have window: "\<forall>x\<in>set items. x \<in> set (data b) \<and> (\<exists>i. 0 \<le> i \<and> i < len b \<and> getitem b i = Inr x)"
    if "sample b k g r = Inr items" for k g r and items :: "'a list"
    using sample_result [OF that] item_at_logical_index [of _ b] by blast
  have with_repl: "\<exists>items. sample b k g True = Inr items \<and> int (length items) = k \<and>
         (\<forall>x\<in>set items. \<exists>i. 0 \<le> i \<and> i < len b \<and> getitem b i = Inr x)"
    if a: "0 < len b \<and> 0 \<le> k \<and> randint_contract g (len b) k"
  proof -
    from a randint_contractD [of g "len b" k]
    obtain idxs where ri: "randint g (len b) k = Inr idxs" and l: "int (length idxs) = k"
      and rg: "list_all (\<lambda>i. 0 \<le> i \<and> i < len b) idxs" by blast
    from rg have "py_getitems (data b) idxs = Inr (map (\<lambda>i. data b ! nat i) idxs)"
      by (intro py_getitems_in_range) (simp add: len_def)
    with ri have s: "sample b k g True = Inr (map (\<lambda>i. data b ! nat i) idxs)"
      by (simp add: sample_def len_def)
    from window [OF s] s l show ?thesis by auto
  qed
  have without: "\<exists>items. sample b k g False = Inr items \<and> int (length items) = k \<and>
         (\<forall>x\<in>set items. \<exists>i. 0 \<le> i \<and> i < len b \<and> getitem b i = Inr x)"
    if a: "0 \<le> k \<and> k \<le> len b \<and> choice_contract g (len b) k"
  proof -
    from a sample_distinct_positions [of g b k]
    obtain idxs where l: "int (length idxs) = k"
      and s: "sample b k g False = Inr (map (\<lambda>i. data b ! nat i) idxs)" by blast
    from window [OF s] s l show ?thesis by auto
  qed
  from window [of k g r items] with_repl without show ?thesis by blast
qed

theorem sample_from_contents_witness:
  "(0 < len \<lparr>max_length = Some 2, data = [9, 8 :: nat], offset = 1\<rparr> \<and> 0 \<le> (3::int) \<and>
    randint_contract \<lparr>randint = (\<lambda>n k. Inr [1, 1, 0]), choice = (\<lambda>n k. Inr [1, 0])\<rparr>
      (len \<lparr>max_length = Some 2, data = [9, 8 :: nat], offset = 1\<rparr>) 3) \<and>
   (\<exists>items. sample \<lparr>max_length = Some 2, data = [9, 8 :: nat], offset = 1\<rparr> 3
              \<lparr>randint = (\<lambda>n k. Inr [1, 1, 0]), choice = (\<lambda>n k. Inr [1, 0])\<rparr> True = Inr items \<and>
            int (length items) = 3)"
proof -
  let ?g = "\<lparr>randint = (\<lambda>n k. Inr [1, 1, 0]), choice = (\<lambda>n k. Inr [1, 0])\<rparr>"
  let ?b = "\<lparr>max_length = Some 2, data = [9, 8 :: nat], offset = 1\<rparr>"
  have h: "0 < len ?b \<and> 0 \<le> (3::int) \<and> randint_contract ?g (len ?b) 3"
    by (simp add: len_def randint_contract_def)
  note r = sample_from_contents [where b = ?b and k = 3 and g = ?g, THEN conjunct2, THEN conjunct1]
  from r h show ?thesis by blast
qed

end
